theory Spec2Isabelle
  imports Main "HOL-Library.AList"
begin

section \<open>Data model of pyss/statemachine.py\<close>

text \<open>
  Python values are modelled as follows. A name is a \<open>string\<close>; a value that may be
  \<open>None\<close> is an \<open>option\<close>. A Python \<open>dict\<close> keeps its keys in insertion order and
  \<open>d[k] = v\<close> replaces the value of an existing key in place, so a dict is an association
  list read with \<open>map_of\<close> and written with \<open>AList.update\<close>. An exception is a value of
  type \<open>error\<close>; a method that mutates the machine before it raises returns the machine
  it leaves behind together with the exception. A \<open>while\<close> loop that may run forever
  is a \<open>partial_function\<close> in the option monad: \<open>None\<close> means that the call does
  not return. The \<open>lru_cache\<close> decorators are not modelled: every query is computed on
  the machine it is given.
\<close>

datatype event = Event (ev_name: string) (ev_data: "(string \<times> string) list option")

record transition =
  from_state :: string
  to_state :: "string option"
  event :: "event option"
  guard :: "string option"
  action :: "string option"

definition internal :: "transition \<Rightarrow> bool" where
  "internal t = (to_state t = None)"

definition eventless :: "transition \<Rightarrow> bool" where
  "eventless t = (event t = None)"

text \<open>
  The five state classes. Each constructor carries the attributes its mixins give the
  object: \<open>transitions\<close> for TransitionStateMixin, \<open>on_entry\<close> and \<open>on_exit\<close> for
  ActionStateMixin, \<open>children\<close> for CompositeStateMixin.
\<close>

datatype state =
    BasicState (name: string) (transitions: "transition list")
      (on_entry: "string option") (on_exit: "string option")
  | CompoundState (name: string) (transitions: "transition list")
      (on_entry: "string option") (on_exit: "string option")
      (children: "string list") (initial: string)
  | OrthogonalState (name: string) (transitions: "transition list")
      (on_entry: "string option") (on_exit: "string option")
      (children: "string list")
  | HistoryState (name: string) (memory: "string option list")
      (history_initial: "string option") (deep: bool)
  | FinalState (name: string) (on_entry: "string option") (on_exit: "string option")

text \<open>\<open>isinstance(state, CompositeStateMixin)\<close>\<close>

fun is_composite :: "state \<Rightarrow> bool" where
  "is_composite (CompoundState n ts en ex cs i) = True"
| "is_composite (OrthogonalState n ts en ex cs) = True"
| "is_composite _ = False"

text \<open>\<open>isinstance(state, CompoundState)\<close> and \<open>isinstance(state, HistoryState)\<close>\<close>

fun is_compound :: "state \<Rightarrow> bool" where
  "is_compound (CompoundState n ts en ex cs i) = True"
| "is_compound _ = False"

fun is_history :: "state \<Rightarrow> bool" where
  "is_history (HistoryState n mem i d) = True"
| "is_history _ = False"

text \<open>\<open>isinstance(state, TransitionStateMixin)\<close>\<close>

fun holds_transitions :: "state \<Rightarrow> bool" where
  "holds_transitions (BasicState n ts en ex) = True"
| "holds_transitions (CompoundState n ts en ex cs i) = True"
| "holds_transitions (OrthogonalState n ts en ex cs) = True"
| "holds_transitions _ = False"

datatype violation =
    UnknownState transition
  | InternalEventlessGuardless transition
  | HistoryOutsideCompound string
  | HistoryMemoryNotSibling string
  | CompositeWithoutChild string
  | InitialNotChild string

datatype error =
    KeyError "string option"
  | AttributeError
  | ValueError violation

text \<open>
  \<open>add_child\<close> and \<open>add_transition\<close> exist only on the classes that inherit the mixin;
  calling them on another object raises AttributeError, which is \<open>None\<close> here.
\<close>

fun add_child :: "state \<Rightarrow> string \<Rightarrow> state option" where
  "add_child (CompoundState n ts en ex cs i) c = Some (CompoundState n ts en ex (cs @ [c]) i)"
| "add_child (OrthogonalState n ts en ex cs) c = Some (OrthogonalState n ts en ex (cs @ [c]))"
| "add_child _ c = None"

fun add_transition :: "state \<Rightarrow> transition \<Rightarrow> state option" where
  "add_transition (BasicState n ts en ex) t = Some (BasicState n (ts @ [t]) en ex)"
| "add_transition (CompoundState n ts en ex cs i) t = Some (CompoundState n (ts @ [t]) en ex cs i)"
| "add_transition (OrthogonalState n ts en ex cs) t = Some (OrthogonalState n (ts @ [t]) en ex cs)"
| "add_transition _ t = None"

record machine =
  sm_name :: string
  sm_initial :: string
  sm_on_entry :: "string option"
  states :: "(string \<times> state) list"
  sm_transitions :: "transition list"
  parent :: "(string \<times> string option) list"
  sm_children :: "string list"

text \<open>\<open>StateMachine.__init__\<close>\<close>

definition new_machine :: "string \<Rightarrow> string \<Rightarrow> string option \<Rightarrow> machine" where
  "new_machine n i e =
     \<lparr>sm_name = n, sm_initial = i, sm_on_entry = e, states = [], sm_transitions = [],
      parent = [], sm_children = []\<rparr>"

text \<open>
  Truth value of a name that may be \<open>None\<close>, as in \<open>while parent:\<close>: \<open>None\<close> and the
  empty string are false.
\<close>

fun truthy :: "string option \<Rightarrow> bool" where
  "truthy None = False"
| "truthy (Some s) = (s \<noteq> [])"

section \<open>Registration\<close>

text \<open>
  The \<open>parent\<close> argument of \<open>register_state\<close> is a state object, a name or \<open>None\<close>;
  the value stored is \<open>parent.name if isinstance(parent, StateMixin) else parent\<close>.
\<close>

datatype parent_arg = ParentNone | ParentName string | ParentState state

fun parent_name :: "parent_arg \<Rightarrow> string option" where
  "parent_name ParentNone = None"
| "parent_name (ParentName p) = Some p"
| "parent_name (ParentState s) = Some (name s)"

text \<open>
  \<open>register_state\<close>: both dict entries are written first; the parent is then looked up
  in the updated \<open>states\<close> with \<open>dict.get\<close>, and \<open>add_child\<close> is called on what is found.
\<close>

definition register_state :: "machine \<Rightarrow> state \<Rightarrow> parent_arg \<Rightarrow> machine \<times> error option" where
  "register_state m st par =
     (let m1 = m\<lparr>states := AList.update (name st) st (states m)\<rparr>;
          m2 = m1\<lparr>parent := AList.update (name st) (parent_name par) (parent m1)\<rparr>;
          parent_state = (case parent_name par of None \<Rightarrow> None
                          | Some p \<Rightarrow> map_of (states m2) p)
      in case parent_state of
           Some ps \<Rightarrow>
             (case add_child ps (name st) of
                None \<Rightarrow> (m2, Some AttributeError)
              | Some ps' \<Rightarrow>
                  (m2\<lparr>states := AList.update (the (parent_name par)) ps' (states m2)\<rparr>, None))
         | None \<Rightarrow> (m2\<lparr>sm_children := sm_children m2 @ [name st]\<rparr>, None))"

text \<open>
  \<open>register_transition\<close>: the append to \<open>self.transitions\<close> comes before the lookup
  \<open>self.states[transition.from_state]\<close>, which raises KeyError on a missing key.
\<close>

definition register_transition :: "machine \<Rightarrow> transition \<Rightarrow> machine \<times> error option" where
  "register_transition m t =
     (let m1 = m\<lparr>sm_transitions := sm_transitions m @ [t]\<rparr>
      in case map_of (states m1) (from_state t) of
           None \<Rightarrow> (m1, Some (KeyError (Some (from_state t))))
         | Some st \<Rightarrow>
             (case add_transition st t of
                None \<Rightarrow> (m1, Some AttributeError)
              | Some st' \<Rightarrow>
                  (m1\<lparr>states := AList.update (from_state t) st' (states m1)\<rparr>, None)))"

section \<open>Hierarchy queries\<close>

text \<open>
  The loop of \<open>ancestors_for\<close>, with the list built so far and the current value of
  \<open>parent\<close>. \<open>self.parent[parent]\<close> raises KeyError on a missing key.
\<close>

partial_function (option) ancestors_loop ::
  "machine \<Rightarrow> string list \<Rightarrow> string option \<Rightarrow> (error + string list) option" where
  "ancestors_loop m ancestors p =
     (if truthy p then
        (case map_of (parent m) (the p) of
           None \<Rightarrow> Some (Inl (KeyError p))
         | Some p' \<Rightarrow> ancestors_loop m (ancestors @ [the p]) p')
      else Some (Inr ancestors))"

definition ancestors_for :: "machine \<Rightarrow> string \<Rightarrow> (error + string list) option" where
  "ancestors_for m s =
     (case map_of (parent m) s of
        None \<Rightarrow> Some (Inl (KeyError (Some s)))
      | Some p \<Rightarrow> ancestors_loop m [] p)"

text \<open>
  The loop of \<open>descendants_for\<close>: \<open>queue\<close> is \<open>states_to_consider\<close>, read with
  \<open>pop(0)\<close>; \<open>self.states[state]\<close> raises KeyError on a missing key.
\<close>

partial_function (option) descendants_loop ::
  "machine \<Rightarrow> string list \<Rightarrow> string list \<Rightarrow> (error + string list) option" where
  "descendants_loop m descendants queue =
     (case queue of
        [] \<Rightarrow> Some (Inr descendants)
      | s # rest \<Rightarrow>
          (case map_of (states m) s of
             None \<Rightarrow> Some (Inl (KeyError (Some s)))
           | Some st \<Rightarrow>
               if is_composite st
               then descendants_loop m (descendants @ children st) (rest @ children st)
               else descendants_loop m descendants rest))"

definition descendants_for :: "machine \<Rightarrow> string \<Rightarrow> (error + string list) option" where
  "descendants_for m s = descendants_loop m [] [s]"

text \<open>
  \<open>depth_of\<close>: the argument may be \<open>None\<close>, tested with \<open>is None\<close> (the empty string
  is not \<open>None\<close>).
\<close>

definition depth_of :: "machine \<Rightarrow> string option \<Rightarrow> (error + int) option" where
  "depth_of m s =
     (case s of
        None \<Rightarrow> Some (Inr 0)
      | Some n \<Rightarrow>
          (case ancestors_for m n of
             None \<Rightarrow> None
           | Some (Inl e) \<Rightarrow> Some (Inl e)
           | Some (Inr ancestors) \<Rightarrow> Some (Inr (int (length ancestors) + 1))))"

text \<open>
  The \<open>for\<close> loop of \<open>least_common_ancestor\<close>: the first state of \<open>s1_anc\<close> that is
  in \<open>s2_anc\<close>; falling off the end of the function returns \<open>None\<close>.
\<close>

fun lca_scan :: "string list \<Rightarrow> string list \<Rightarrow> string option" where
  "lca_scan [] s2_anc = None"
| "lca_scan (s # rest) s2_anc = (if s \<in> set s2_anc then Some s else lca_scan rest s2_anc)"

definition least_common_ancestor ::
  "machine \<Rightarrow> string \<Rightarrow> string \<Rightarrow> (error + string option) option" where
  "least_common_ancestor m s1 s2 =
     (case ancestors_for m s1 of
        None \<Rightarrow> None
      | Some (Inl e) \<Rightarrow> Some (Inl e)
      | Some (Inr s1_anc) \<Rightarrow>
          (case ancestors_for m s2 of
             None \<Rightarrow> None
           | Some (Inl e) \<Rightarrow> Some (Inl e)
           | Some (Inr s2_anc) \<Rightarrow> Some (Inr (lca_scan s1_anc s2_anc))))"

text \<open>
  \<open>leaf_for\<close>: the inner loop clears \<open>keep\<close> at the first descendant that is in
  \<open>states\<close>; the outer loop appends the states that keep it.
\<close>

fun keep_scan :: "string list \<Rightarrow> string list \<Rightarrow> bool" where
  "keep_scan [] sts = True"
| "keep_scan (d # ds) sts = (if d \<in> set sts then False else keep_scan ds sts)"

fun leaf_loop ::
  "machine \<Rightarrow> string list \<Rightarrow> string list \<Rightarrow> string list \<Rightarrow> (error + string list) option" where
  "leaf_loop m sts leaves [] = Some (Inr leaves)"
| "leaf_loop m sts leaves (s # rest) =
     (case descendants_for m s of
        None \<Rightarrow> None
      | Some (Inl e) \<Rightarrow> Some (Inl e)
      | Some (Inr ds) \<Rightarrow>
          leaf_loop m sts (if keep_scan ds sts then leaves @ [s] else leaves) rest)"

definition leaf_for :: "machine \<Rightarrow> string list \<Rightarrow> (error + string list) option" where
  "leaf_for m sts = leaf_loop m sts [] sts"

section \<open>Validation\<close>

text \<open>\<open>name in self.states\<close>\<close>

definition registered :: "machine \<Rightarrow> string \<Rightarrow> bool" where
  "registered m n = (map_of (states m) n \<noteq> None)"

text \<open>
  The body of the first loop of \<open>valid\<close>, for one transition: the check of the
  states it refers to, then the check that it is not internal, eventless and guardless
  at once (the first and the sixth check of the docstring). An event
  object is always true, so \<open>not transition.event\<close> holds for \<open>None\<close> only.
\<close>

definition check_transition :: "machine \<Rightarrow> transition \<Rightarrow> error option" where
  "check_transition m t =
     (if \<not> (registered m (from_state t) \<and>
             (\<not> truthy (to_state t) \<or> registered m (the (to_state t))))
      then Some (ValueError (UnknownState t))
      else if event t = None \<and> \<not> truthy (guard t) \<and> \<not> truthy (to_state t)
      then Some (ValueError (InternalEventlessGuardless t))
      else None)"

text \<open>
  The body of the second loop, for the entry \<open>name, state\<close> of \<open>self.states\<close>, in its
  three parts: the two checks of a history state (its parent is a compound state, its
  initial memory is a sibling), the check that a composite state has a child, and the
  check that the initial state of a compound state is one of its children. Every
  subscript on \<open>self.parent\<close> and \<open>self.states\<close> raises KeyError on a missing key.
\<close>

definition check_history :: "machine \<Rightarrow> string \<Rightarrow> state \<Rightarrow> error option" where
  "check_history m n st =
     (if is_history st then
        (case map_of (parent m) n of
           None \<Rightarrow> Some (KeyError (Some n))
         | Some pn \<Rightarrow>
             (case (case pn of None \<Rightarrow> None | Some p \<Rightarrow> map_of (states m) p) of
                None \<Rightarrow> Some (KeyError pn)
              | Some ps \<Rightarrow>
                  if \<not> is_compound ps
                  then Some (ValueError (HistoryOutsideCompound (name st)))
                  else if truthy (history_initial st) then
                    (case map_of (parent m) (the (history_initial st)) of
                       None \<Rightarrow> Some (KeyError (history_initial st))
                     | Some pi \<Rightarrow>
                         if pi \<noteq> pn
                         then Some (ValueError (HistoryMemoryNotSibling (name st)))
                         else None)
                  else None))
      else None)"

definition check_composite :: "state \<Rightarrow> error option" where
  "check_composite st =
     (if is_composite st \<and> length (children st) \<le> 0
      then Some (ValueError (CompositeWithoutChild (name st)))
      else None)"

definition check_initial :: "machine \<Rightarrow> string \<Rightarrow> state \<Rightarrow> error option" where
  "check_initial m n st =
     (if is_compound st then
        (case map_of (parent m) n of
           None \<Rightarrow> Some (KeyError (Some n))
         | Some pn \<Rightarrow>
             if truthy pn then
               (case map_of (parent m) (initial st) of
                  None \<Rightarrow> Some (KeyError (Some (initial st)))
                | Some pi \<Rightarrow>
                    if pi \<noteq> Some n
                    then Some (ValueError (InitialNotChild (name st)))
                    else None)
             else None)
      else None)"

definition check_state :: "machine \<Rightarrow> string \<times> state \<Rightarrow> error option" where
  "check_state m e =
     (case check_history m (fst e) (snd e) of
        Some err \<Rightarrow> Some err
      | None \<Rightarrow>
          (case check_composite (snd e) of
             Some err \<Rightarrow> Some err
           | None \<Rightarrow> check_initial m (fst e) (snd e)))"

text \<open>A \<open>for\<close> loop whose body may raise: the first exception ends it.\<close>

fun first_error :: "('a \<Rightarrow> error option) \<Rightarrow> 'a list \<Rightarrow> error option" where
  "first_error f [] = None"
| "first_error f (x # xs) = (case f x of Some err \<Rightarrow> Some err | None \<Rightarrow> first_error f xs)"

definition valid :: "machine \<Rightarrow> error + bool" where
  "valid m =
     (case first_error (check_transition m) (sm_transitions m) of
        Some err \<Rightarrow> Inl err
      | None \<Rightarrow>
          (case first_error (check_state m) (states m) of
             Some err \<Rightarrow> Inl err
           | None \<Rightarrow> Inr True))"

declare ancestors_loop.simps [code]
declare descendants_loop.simps [code]

section \<open>Notions used to state the properties\<close>

text \<open>
  \<open>chain_from m p a\<close>: starting with the value \<open>p\<close> of the variable \<open>parent\<close>, the loop
  of \<open>ancestors_for\<close> appends the names \<open>a\<close> and then stops. It follows the loop: a name
  is appended while it is true, and the next one is read from \<open>self.parent\<close>.
\<close>

inductive chain_from :: "machine \<Rightarrow> string option \<Rightarrow> string list \<Rightarrow> bool" where
  chain_stop: "\<not> truthy p \<Longrightarrow> chain_from m p []"
| chain_step: "n \<noteq> [] \<Longrightarrow> map_of (parent m) n = Some p' \<Longrightarrow> chain_from m p' a
     \<Longrightarrow> chain_from m (Some n) (n # a)"

text \<open>
  The parent chain of a state as the specification describes it: \<open>top_chain m s c\<close> says
  that \<open>c\<close> lists the parent of \<open>s\<close>, the parent of that parent and so on, and that the
  last of them is a top-level state, one whose recorded parent is absent (\<open>None\<close>).
  A chain of this kind is finite, so the parent links of \<open>s\<close> are acyclic.
  \<open>nth_parent m k s\<close> is the \<open>k\<close>-fold parent of \<open>s\<close>.
\<close>

inductive top_chain :: "machine \<Rightarrow> string \<Rightarrow> string list \<Rightarrow> bool" where
  top_level: "map_of (parent m) s = Some None \<Longrightarrow> top_chain m s []"
| nested: "map_of (parent m) s = Some (Some p) \<Longrightarrow> top_chain m p ps \<Longrightarrow> top_chain m s (p # ps)"

fun nth_parent :: "machine \<Rightarrow> nat \<Rightarrow> string \<Rightarrow> string option" where
  "nth_parent m 0 s = Some s"
| "nth_parent m (Suc k) s =
     (case nth_parent m k s of
        None \<Rightarrow> None
      | Some q \<Rightarrow> (case map_of (parent m) q of Some (Some p) \<Rightarrow> Some p | _ \<Rightarrow> None))"

text \<open>
  Descendants as the specification describes them: the children of a state are the
  names in its \<open>children\<close> list, when the state is registered and composite, and a
  descendant is a child or a descendant of a child.
\<close>

definition child_names :: "state \<Rightarrow> string list" where
  "child_names st = (if is_composite st then children st else [])"

inductive descendant :: "machine \<Rightarrow> string \<Rightarrow> string \<Rightarrow> bool" where
  child: "map_of (states m) s = Some st \<Longrightarrow> c \<in> set (child_names st) \<Longrightarrow> descendant m s c"
| below: "map_of (states m) s = Some st \<Longrightarrow> c \<in> set (child_names st) \<Longrightarrow> descendant m c d
     \<Longrightarrow> descendant m s d"

text \<open>
  The children structure below a state is a tree: \<open>subtree_at m t\<close> says that the state
  named at the root of the finite tree \<open>t\<close> is registered, that its children are the
  roots of the subtrees of \<open>t\<close>, in order, and that the same holds for every subtree.
  \<open>tree_below m s\<close> says that there is such a tree with \<open>s\<close> at its root.
\<close>

datatype tree = Node (node_name: string) (subtrees: "tree list")

fun subtree_at :: "machine \<Rightarrow> tree \<Rightarrow> bool" where
  "subtree_at m (Node s ts) =
     (case map_of (states m) s of
        None \<Rightarrow> False
      | Some st \<Rightarrow> child_names st = map node_name ts \<and> (\<forall>t\<in>set ts. subtree_at m t))"

definition tree_below :: "machine \<Rightarrow> string \<Rightarrow> bool" where
  "tree_below m s = (\<exists>t. node_name t = s \<and> subtree_at m t)"

section \<open>Example machines\<close>

text \<open>
  Three machines built with the registration operations: the machine of the first
  end-to-end scenario of the specification (a compound state with two basic children
  and one transition), the machine of the second one (an orthogonal state with two
  compound regions of one basic child each), and a machine whose top-level state has
  the empty string as its name.
\<close>

definition go_transition :: transition where
  "go_transition = \<lparr>from_state = ''A'', to_state = Some ''B'', event = Some (Event ''go'' None),
     guard = None, action = None\<rparr>"

definition example_machine :: machine where
  "example_machine =
     (let m0 = new_machine ''sm'' ''root'' None;
          m1 = fst (register_state m0 (CompoundState ''root'' [] None None [] ''A'') ParentNone);
          m2 = fst (register_state m1 (BasicState ''A'' [] None None) (ParentName ''root''));
          m3 = fst (register_state m2 (BasicState ''B'' [] None None) (ParentName ''root''))
      in fst (register_transition m3 go_transition))"

definition region_machine :: machine where
  "region_machine =
     (let m0 = new_machine ''regions'' ''P'' None;
          m1 = fst (register_state m0 (OrthogonalState ''P'' [] None None []) ParentNone);
          m2 = fst (register_state m1 (CompoundState ''R1'' [] None None [] ''X1'') (ParentName ''P''));
          m3 = fst (register_state m2 (CompoundState ''R2'' [] None None [] ''X2'') (ParentName ''P''));
          m4 = fst (register_state m3 (BasicState ''X1'' [] None None) (ParentName ''R1''))
      in fst (register_state m4 (BasicState ''X2'' [] None None) (ParentName ''R2'')))"

definition empty_name_machine :: machine where
  "empty_name_machine =
     (let m0 = new_machine ''sm'' '''' None;
          m1 = fst (register_state m0 (CompoundState '''' [] None None [] ''A'') ParentNone)
      in fst (register_state m1 (BasicState ''A'' [] None None) (ParentName '''')))"

text \<open>
  A machine with one final state, a transition from that state, and a transition from a
  name that no machine here registers.
\<close>

definition final_machine :: machine where
  "final_machine =
     fst (register_state (new_machine ''sm'' ''F'' None) (FinalState ''F'' None None) ParentNone)"

definition from_final :: transition where
  "from_final = \<lparr>from_state = ''F'', to_state = Some ''F'', event = None, guard = None,
     action = None\<rparr>"

definition from_ghost :: transition where
  "from_ghost = \<lparr>from_state = ''ghost'', to_state = Some ''A'', event = None, guard = None,
     action = None\<rparr>"

text \<open>
  A machine in which the nested compound state \<open>C\<close> names as its initial state a child
  of \<open>root\<close>, and a machine in which it names a state that is not registered.
\<close>

definition nested_machine :: machine where
  "nested_machine =
     (let m0 = new_machine ''sm'' ''root'' None;
          m1 = fst (register_state m0 (CompoundState ''root'' [] None None [] ''A'') ParentNone);
          m2 = fst (register_state m1 (BasicState ''A'' [] None None) (ParentName ''root''));
          m3 = fst (register_state m2 (CompoundState ''C'' [] None None [] ''A'') (ParentName ''root''))
      in fst (register_state m3 (BasicState ''D'' [] None None) (ParentName ''C'')))"

definition ghost_initial_machine :: machine where
  "ghost_initial_machine =
     (let m0 = new_machine ''sm'' ''root'' None;
          m1 = fst (register_state m0 (CompoundState ''root'' [] None None [] ''C'') ParentNone);
          m2 = fst (register_state m1 (CompoundState ''C'' [] None None [] ''ghost'')
                 (ParentName ''root''))
      in fst (register_state m2 (BasicState ''D'' [] None None) (ParentName ''C'')))"

section \<open>The example machines, evaluated\<close>

lemma example_machine_eq:
  "example_machine =
     \<lparr>sm_name = ''sm'', sm_initial = ''root'', sm_on_entry = None,
      states = [(''root'', CompoundState ''root'' [] None None [''A'', ''B''] ''A''),
                (''A'', BasicState ''A'' [go_transition] None None),
                (''B'', BasicState ''B'' [] None None)],
      sm_transitions = [go_transition],
      parent = [(''root'', None), (''A'', Some ''root''), (''B'', Some ''root'')],
      sm_children = [''root'']\<rparr>"
  by (simp add: example_machine_def register_state_def register_transition_def new_machine_def
      go_transition_def)

lemma region_machine_eq:
  "region_machine =
     \<lparr>sm_name = ''regions'', sm_initial = ''P'', sm_on_entry = None,
      states = [(''P'', OrthogonalState ''P'' [] None None [''R1'', ''R2'']),
                (''R1'', CompoundState ''R1'' [] None None [''X1''] ''X1''),
                (''R2'', CompoundState ''R2'' [] None None [''X2''] ''X2''),
                (''X1'', BasicState ''X1'' [] None None),
                (''X2'', BasicState ''X2'' [] None None)],
      sm_transitions = [],
      parent = [(''P'', None), (''R1'', Some ''P''), (''R2'', Some ''P''),
                (''X1'', Some ''R1''), (''X2'', Some ''R2'')],
      sm_children = [''P'']\<rparr>"
  by (simp add: region_machine_def register_state_def new_machine_def)

lemma empty_name_machine_eq:
  "empty_name_machine =
     \<lparr>sm_name = ''sm'', sm_initial = '''', sm_on_entry = None,
      states = [('''', CompoundState '''' [] None None [''A''] ''A''),
                (''A'', BasicState ''A'' [] None None)],
      sm_transitions = [],
      parent = [('''', None), (''A'', Some '''')],
      sm_children = ['''']\<rparr>"
  by (simp add: empty_name_machine_def register_state_def new_machine_def)

lemma final_machine_eq:
  "final_machine =
     \<lparr>sm_name = ''sm'', sm_initial = ''F'', sm_on_entry = None,
      states = [(''F'', FinalState ''F'' None None)], sm_transitions = [],
      parent = [(''F'', None)], sm_children = [''F'']\<rparr>"
  by (simp add: final_machine_def register_state_def new_machine_def)

lemma nested_machine_eq:
  "nested_machine =
     \<lparr>sm_name = ''sm'', sm_initial = ''root'', sm_on_entry = None,
      states = [(''root'', CompoundState ''root'' [] None None [''A'', ''C''] ''A''),
                (''A'', BasicState ''A'' [] None None),
                (''C'', CompoundState ''C'' [] None None [''D''] ''A''),
                (''D'', BasicState ''D'' [] None None)],
      sm_transitions = [],
      parent = [(''root'', None), (''A'', Some ''root''), (''C'', Some ''root''),
                (''D'', Some ''C'')],
      sm_children = [''root'']\<rparr>"
  by (simp add: nested_machine_def register_state_def new_machine_def)

lemma ghost_initial_machine_eq:
  "ghost_initial_machine =
     \<lparr>sm_name = ''sm'', sm_initial = ''root'', sm_on_entry = None,
      states = [(''root'', CompoundState ''root'' [] None None [''C''] ''C''),
                (''C'', CompoundState ''C'' [] None None [''D''] ''ghost''),
                (''D'', BasicState ''D'' [] None None)],
      sm_transitions = [],
      parent = [(''root'', None), (''C'', Some ''root''), (''D'', Some ''C'')],
      sm_children = [''root'']\<rparr>"
  by (simp add: ghost_initial_machine_def register_state_def new_machine_def)

section \<open>The loop of ancestors_for\<close>

text \<open>
  The loop returns a list exactly when \<open>chain_from\<close> holds, and then it returns that
  list after the names it already had. The chain is determined by its start, every
  name in it starts the rest of the chain, and no name occurs twice.
\<close>

lemma chain_from_loop:
  "chain_from m p a \<Longrightarrow> ancestors_loop m acc p = Some (Inr (acc @ a))"
proof (induction arbitrary: acc rule: chain_from.induct)
  case (chain_stop p m)
  then show ?case by (simp add: ancestors_loop.simps)
next
  case (chain_step n m p' a)
  have "ancestors_loop m acc (Some n) = ancestors_loop m (acc @ [n]) p'"
    using chain_step.hyps(1,2) by (subst ancestors_loop.simps) simp
  then show ?case using chain_step.IH [of "acc @ [n]"] by simp
qed

lemma loop_chain_from_aux:
  assumes "ancestors_loop m acc p = Some r"
  shows "\<forall>xs. r = Inr xs \<longrightarrow> (\<exists>a. chain_from m p a \<and> xs = acc @ a)"
proof (rule ancestors_loop.raw_induct [OF _ assms])
  fix loop :: "machine \<Rightarrow> string list \<Rightarrow> string option \<Rightarrow> (error + string list) option"
    and m acc p r
  assume IH: "\<And>m acc p r. loop m acc p = Some r \<Longrightarrow>
                \<forall>xs. r = Inr xs \<longrightarrow> (\<exists>a. chain_from m p a \<and> xs = acc @ a)"
    and eq: "(if truthy p
              then case map_of (parent m) (the p) of None \<Rightarrow> Some (Inl (KeyError p))
                   | Some p' \<Rightarrow> loop m (acc @ [the p]) p'
              else Some (Inr acc)) = Some r"
  show "\<forall>xs. r = Inr xs \<longrightarrow> (\<exists>a. chain_from m p a \<and> xs = acc @ a)"
  proof (intro allI impI)
    fix xs assume r: "r = Inr xs"
    show "\<exists>a. chain_from m p a \<and> xs = acc @ a"
    proof (cases "truthy p")
      case False
      with eq r show ?thesis by (auto intro: chain_stop)
    next
      case True
      then obtain n where n: "p = Some n" "n \<noteq> []" by (cases p) auto
      with eq r True obtain p' where p': "map_of (parent m) n = Some p'"
        and l: "loop m (acc @ [n]) p' = Some r"
        by (auto split: option.splits)
      from IH [OF l] r obtain a where "chain_from m p' a" "xs = (acc @ [n]) @ a" by blast
      with n p' show ?thesis by (auto intro: chain_step)
    qed
  qed
qed

lemma loop_chain_from:
  "ancestors_loop m acc p = Some (Inr xs) \<Longrightarrow> \<exists>a. chain_from m p a \<and> xs = acc @ a"
  using loop_chain_from_aux by blast

lemma chain_from_det: "chain_from m p a \<Longrightarrow> chain_from m p b \<Longrightarrow> a = b"
proof (induction arbitrary: b rule: chain_from.induct)
  case (chain_stop p m)
  then show ?case by (auto elim: chain_from.cases)
next
  case (chain_step n m p' a)
  from chain_step.prems chain_step.hyps(1,2) obtain b' where "b = n # b'" "chain_from m p' b'"
    by (auto elim: chain_from.cases)
  with chain_step.IH show ?case by simp
qed

lemma chain_from_suffix:
  "chain_from m p a \<Longrightarrow> x \<in> set a \<Longrightarrow>
     \<exists>pre post. a = pre @ x # post \<and> chain_from m (Some x) (x # post)"
proof (induction rule: chain_from.induct)
  case (chain_stop p m)
  then show ?case by simp
next
  case (chain_step n m p' a)
  show ?case
  proof (cases "x = n")
    case True
    have "chain_from m (Some n) (n # a)" using chain_step.hyps by (rule chain_from.chain_step)
    with True show ?thesis by (intro exI [of _ "[]"] exI [of _ a]) simp
  next
    case False
    with chain_step.prems have "x \<in> set a" by simp
    from chain_step.IH [OF this] obtain pre post where
      "a = pre @ x # post" "chain_from m (Some x) (x # post)" by blast
    then show ?thesis by (intro exI [of _ "n # pre"] exI [of _ post]) simp
  qed
qed

lemma chain_from_distinct: "chain_from m p a \<Longrightarrow> distinct a"
proof (induction rule: chain_from.induct)
  case (chain_stop p m)
  then show ?case by simp
next
  case (chain_step n m p' a)
  have "n \<notin> set a"
  proof
    assume "n \<in> set a"
    from chain_from_suffix [OF chain_step.hyps(3) this] obtain pre post where
      a: "a = pre @ n # post" and c: "chain_from m (Some n) (n # post)" by blast
    have "chain_from m (Some n) (n # a)" using chain_step.hyps by (rule chain_from.chain_step)
    from chain_from_det [OF this c] have "a = post" by simp
    with a show False by simp
  qed
  with chain_step.IH show ?case by simp
qed

lemma ancestors_for_iff:
  "ancestors_for m s = Some (Inr a) \<longleftrightarrow> (\<exists>p. map_of (parent m) s = Some p \<and> chain_from m p a)"
proof
  assume h: "ancestors_for m s = Some (Inr a)"
  then obtain p where p: "map_of (parent m) s = Some p" and l: "ancestors_loop m [] p = Some (Inr a)"
    by (auto simp: ancestors_for_def split: option.splits)
  from loop_chain_from [OF l] p show "\<exists>p. map_of (parent m) s = Some p \<and> chain_from m p a"
    by auto
next
  assume "\<exists>p. map_of (parent m) s = Some p \<and> chain_from m p a"
  then obtain p where p: "map_of (parent m) s = Some p" and c: "chain_from m p a" by blast
  from chain_from_loop [OF c, of "[]"] p show "ancestors_for m s = Some (Inr a)"
    by (simp add: ancestors_for_def)
qed

section \<open>Parent chains\<close>

lemma top_chain_parent: "top_chain m s c \<Longrightarrow> \<exists>p. map_of (parent m) s = Some p"
  by (auto elim: top_chain.cases)

lemma top_chain_chain_from:
  "top_chain m s c \<Longrightarrow>
     \<exists>p. map_of (parent m) s = Some p \<and> chain_from m p (takeWhile (\<lambda>n. n \<noteq> []) c)"
proof (induction rule: top_chain.induct)
  case (top_level m s)
  then show ?case by (auto intro: chain_stop)
next
  case (nested m s p ps)
  then obtain p' where p': "map_of (parent m) p = Some p'"
    and c: "chain_from m p' (takeWhile (\<lambda>n. n \<noteq> []) ps)" by blast
  show ?case
  proof (cases "p = []")
    case True
    with nested.hyps(1) show ?thesis by (auto intro: chain_stop)
  next
    case False
    with p' c have "chain_from m (Some p) (p # takeWhile (\<lambda>n. n \<noteq> []) ps)"
      by (auto intro: chain_step)
    with nested.hyps(1) False show ?thesis by simp
  qed
qed

lemma top_chain_returns:
  "top_chain m s c \<Longrightarrow> ancestors_for m s = Some (Inr (takeWhile (\<lambda>n. n \<noteq> []) c))"
  using top_chain_chain_from [of m s c] by (simp add: ancestors_for_iff)

lemma top_chain_link:
  "top_chain m s c \<Longrightarrow> Suc i < length c \<Longrightarrow> map_of (parent m) (c ! i) = Some (Some (c ! Suc i))"
proof (induction arbitrary: i rule: top_chain.induct)
  case (top_level m s)
  then show ?case by simp
next
  case (nested m s p ps)
  show ?case
  proof (cases i)
    case 0
    with nested.prems obtain q qs where "ps = q # qs" by (cases ps) auto
    with nested.hyps(2) 0 show ?thesis by (auto elim: top_chain.cases)
  next
    case (Suc j)
    with nested.prems nested.IH [of j] show ?thesis by simp
  qed
qed

lemma top_chain_nth_parent:
  "top_chain m s c \<Longrightarrow> i < length c \<Longrightarrow> nth_parent m (Suc i) s = Some (c ! i)"
proof (induction i)
  case 0
  then show ?case by (auto elim: top_chain.cases)
next
  case (Suc i)
  then have "nth_parent m (Suc i) s = Some (c ! i)" by simp
  moreover have "map_of (parent m) (c ! i) = Some (Some (c ! Suc i))"
    using top_chain_link [OF Suc.prems] .
  ultimately show ?case by simp
qed

lemma top_chain_last:
  "top_chain m s c \<Longrightarrow> c \<noteq> [] \<Longrightarrow> map_of (parent m) (last c) = Some None"
proof (induction rule: top_chain.induct)
  case (top_level m s)
  then show ?case by simp
next
  case (nested m s p ps)
  then show ?case by (cases ps) (auto elim: top_chain.cases)
qed

lemma top_chain_not_member:
  assumes "top_chain m s c" and "[] \<notin> set c"
  shows "s \<notin> set c"
proof
  assume mem: "s \<in> set c"
  from assms have tw: "takeWhile (\<lambda>n. n \<noteq> []) c = c"
    by (metis (mono_tags, lifting) takeWhile_eq_all_conv)
  from top_chain_chain_from [OF assms(1)] tw obtain p where
    p: "map_of (parent m) s = Some p" and c: "chain_from m p c" by auto
  from mem assms(2) have "s \<noteq> []" by auto
  with p c have "chain_from m (Some s) (s # c)" by (auto intro: chain_step)
  from chain_from_distinct [OF this] mem show False by simp
qed

section \<open>The scan of least_common_ancestor\<close>

lemma lca_scan_None: "lca_scan a b = None \<longleftrightarrow> set a \<inter> set b = {}"
  by (induction a) auto

lemma lca_scan_Some:
  "lca_scan a b = Some x \<longleftrightarrow>
     (\<exists>pre post. a = pre @ x # post \<and> x \<in> set b \<and> set pre \<inter> set b = {})"
proof (induction a)
  case Nil
  then show ?case by simp
next
  case (Cons y a)
  show ?case
  proof (cases "y \<in> set b")
    case True
    show ?thesis
    proof
      assume "lca_scan (y # a) b = Some x"
      with True have "x = y" by simp
      with True show "\<exists>pre post. y # a = pre @ x # post \<and> x \<in> set b \<and> set pre \<inter> set b = {}"
        by (intro exI [of _ "[]"] exI [of _ a]) simp
    next
      assume "\<exists>pre post. y # a = pre @ x # post \<and> x \<in> set b \<and> set pre \<inter> set b = {}"
      then obtain pre post where d: "y # a = pre @ x # post" "set pre \<inter> set b = {}" by blast
      with True have "pre = []" by (cases pre) auto
      with d True show "lca_scan (y # a) b = Some x" by simp
    qed
  next
    case False
    show ?thesis
    proof
      assume "lca_scan (y # a) b = Some x"
      with False have "lca_scan a b = Some x" by simp
      with Cons.IH obtain pre post where "a = pre @ x # post" "x \<in> set b" "set pre \<inter> set b = {}"
        by blast
      with False show "\<exists>pre post. y # a = pre @ x # post \<and> x \<in> set b \<and> set pre \<inter> set b = {}"
        by (intro exI [of _ "y # pre"] exI [of _ post]) simp
    next
      assume "\<exists>pre post. y # a = pre @ x # post \<and> x \<in> set b \<and> set pre \<inter> set b = {}"
      then obtain pre post where d: "y # a = pre @ x # post" "x \<in> set b" "set pre \<inter> set b = {}"
        by blast
      with False obtain pre' where "pre = y # pre'" by (cases pre) auto
      with d have "a = pre' @ x # post" "set pre' \<inter> set b = {}" by auto
      with d(2) Cons.IH have "lca_scan a b = Some x" by blast
      with False show "lca_scan (y # a) b = Some x" by simp
    qed
  qed
qed

lemma lca_scan_sym_Some:
  assumes c1: "chain_from m p1 a1" and c2: "chain_from m p2 a2"
    and s: "lca_scan a1 a2 = Some x"
  shows "lca_scan a2 a1 = Some x"
proof -
  from s obtain pre1 post1 where a1: "a1 = pre1 @ x # post1" and x2: "x \<in> set a2"
    and dis: "set pre1 \<inter> set a2 = {}" by (auto simp: lca_scan_Some)
  from chain_from_suffix [OF c2 x2] obtain pre2 post2 where
    a2: "a2 = pre2 @ x # post2" and cx2: "chain_from m (Some x) (x # post2)" by blast
  from a1 have "x \<in> set a1" by simp
  from chain_from_suffix [OF c1 this] obtain pre1' post1' where
    a1': "a1 = pre1' @ x # post1'" and cx1: "chain_from m (Some x) (x # post1')" by blast
  from chain_from_det [OF cx1 cx2] have pp: "post1' = post2" by simp
  have d1: "distinct a1" using c1 by (rule chain_from_distinct)
  have d2: "distinct a2" using c2 by (rule chain_from_distinct)
  from d1 a1 have "x \<notin> set pre1" "x \<notin> set post1" by auto
  moreover from a1 a1' have "pre1 @ x # post1 = pre1' @ x # post1'" by simp
  ultimately have "post1 = post1'" by (simp add: append_Cons_eq_iff)
  with pp have post: "post1 = post2" by simp
  have "set pre2 \<inter> set a1 = {}"
  proof (rule ccontr)
    assume "set pre2 \<inter> set a1 \<noteq> {}"
    then obtain y where y2: "y \<in> set pre2" and y1: "y \<in> set a1" by auto
    from y2 a2 have ya2: "y \<in> set a2" by simp
    with dis have "y \<notin> set pre1" by auto
    with y1 a1 post have "y = x \<or> y \<in> set post2" by auto
    with y2 a2 d2 show False by auto
  qed
  with a2 \<open>x \<in> set a1\<close> show ?thesis by (auto simp: lca_scan_Some)
qed

lemma lca_scan_sym:
  assumes c1: "chain_from m p1 a1" and c2: "chain_from m p2 a2"
  shows "lca_scan a1 a2 = lca_scan a2 a1"
proof (cases "lca_scan a1 a2")
  case None
  then have "set a2 \<inter> set a1 = {}" by (auto simp: lca_scan_None)
  then have "lca_scan a2 a1 = None" by (simp add: lca_scan_None)
  with None show ?thesis by simp
next
  case (Some x)
  with lca_scan_sym_Some [OF c1 c2] show ?thesis by simp
qed

lemma lca_scan_subset:
  "set a \<subseteq> set b \<Longrightarrow> lca_scan a b = (case a of [] \<Rightarrow> None | x # _ \<Rightarrow> Some x)"
  by (cases a) auto

section \<open>Properties of the hierarchy queries\<close>

text \<open>
  In the first example machine \<open>A\<close> is a child of \<open>root\<close>, and the least common
  ancestor of \<open>root\<close> and \<open>A\<close> is \<open>None\<close>, not \<open>root\<close>: \<open>ancestors_for\<close> leaves the
  state itself out, so the scan never meets \<open>root\<close>.
\<close>

theorem lca_of_ancestor_not_self_counterexample:
  "descendants_for example_machine ''root'' = Some (Inr [''A'', ''B'']) \<and>
   ancestors_for example_machine ''A'' = Some (Inr [''root'']) \<and>
   least_common_ancestor example_machine ''root'' ''A'' = Some (Inr None) \<and>
   least_common_ancestor example_machine ''root'' ''A'' \<noteq> Some (Inr (Some ''root''))"
  by (simp add: example_machine_eq descendants_for_def descendants_loop.simps
      least_common_ancestor_def ancestors_for_def ancestors_loop.simps)

text \<open>
  Claim C1, amended. If \<open>s1\<close> is among the ancestors of \<open>s2\<close>, then
  \<open>least_common_ancestor(s1, s2)\<close> returns the recorded parent of \<open>s1\<close>, or \<open>None\<close> when
  that parent is absent or empty; the recorded parent is not \<open>s1\<close>, so the result is
  never \<open>s1\<close> itself.
\<close>

theorem lca_of_ancestor:
  assumes "ancestors_for m s2 = Some (Inr a2)" and "s1 \<in> set a2"
  shows "\<exists>p. map_of (parent m) s1 = Some p \<and> p \<noteq> Some s1 \<and>
             least_common_ancestor m s1 s2 = Some (Inr (if truthy p then p else None))"
proof -
  from assms(1) obtain p2 where c2: "chain_from m p2 a2" by (auto simp: ancestors_for_iff)
  from chain_from_suffix [OF c2 assms(2)] obtain pre post where
    a2: "a2 = pre @ s1 # post" and c1: "chain_from m (Some s1) (s1 # post)" by blast
  from c1 obtain p where p: "map_of (parent m) s1 = Some p" and cp: "chain_from m p post"
    by (auto elim: chain_from.cases)
  from p cp have a1: "ancestors_for m s1 = Some (Inr post)" by (auto simp: ancestors_for_iff)
  from a2 have "set post \<subseteq> set a2" by auto
  then have scan: "lca_scan post a2 = (case post of [] \<Rightarrow> None | x # _ \<Rightarrow> Some x)"
    by (rule lca_scan_subset)
  have "(case post of [] \<Rightarrow> None | x # _ \<Rightarrow> Some x) = (if truthy p then p else None)"
    using cp by (auto elim: chain_from.cases)
  with scan a1 assms(1) have
    "least_common_ancestor m s1 s2 = Some (Inr (if truthy p then p else None))"
    by (simp add: least_common_ancestor_def)
  moreover have "p \<noteq> Some s1"
  proof
    assume "p = Some s1"
    with cp c1 have "chain_from m (Some s1) post" by simp
    from chain_from_det [OF this c1] show False by simp
  qed
  ultimately show ?thesis using p by blast
qed

text \<open>In the second example machine, with \<open>s1 = R1\<close> and \<open>s2 = X1\<close>, the result is \<open>P\<close>.\<close>

theorem lca_of_ancestor_witness:
  "ancestors_for region_machine ''X1'' = Some (Inr [''R1'', ''P'']) \<and> ''R1'' \<in> set [''R1'', ''P''] \<and>
   map_of (parent region_machine) ''R1'' = Some (Some ''P'') \<and>
   least_common_ancestor region_machine ''R1'' ''X1'' = Some (Inr (Some ''P''))"
proof -
  have h1: "ancestors_for region_machine ''X1'' = Some (Inr [''R1'', ''P''])"
    by (simp add: region_machine_eq ancestors_for_def ancestors_loop.simps)
  have h2: "''R1'' \<in> set [''R1'', ''P'']" by simp
  have p: "map_of (parent region_machine) ''R1'' = Some (Some ''P'')"
    by (simp add: region_machine_eq)
  from lca_of_ancestor [OF h1 h2] p h1 h2 show ?thesis by auto
qed

text \<open>
  Claim C2. For two states whose parent chains end at a top-level state,
  \<open>least_common_ancestor(s1, s2)\<close> and \<open>least_common_ancestor(s2, s1)\<close> both return,
  and return the same value.
\<close>

theorem lca_symmetric:
  assumes "top_chain m s1 c1" and "top_chain m s2 c2"
  shows "least_common_ancestor m s1 s2 = least_common_ancestor m s2 s1 \<and>
         (\<exists>r. least_common_ancestor m s1 s2 = Some (Inr r))"
proof -
  from top_chain_chain_from [OF assms(1)] obtain p1 a1 where
    p1: "map_of (parent m) s1 = Some p1" and k1: "chain_from m p1 a1" by blast
  from top_chain_chain_from [OF assms(2)] obtain p2 a2 where
    p2: "map_of (parent m) s2 = Some p2" and k2: "chain_from m p2 a2" by blast
  from p1 k1 have r1: "ancestors_for m s1 = Some (Inr a1)" by (auto simp: ancestors_for_iff)
  from p2 k2 have r2: "ancestors_for m s2 = Some (Inr a2)" by (auto simp: ancestors_for_iff)
  from r1 r2 lca_scan_sym [OF k1 k2] show ?thesis by (simp add: least_common_ancestor_def)
qed

text \<open>In the second example machine, with \<open>X1\<close> and \<open>R2\<close>: the result is \<open>P\<close> both ways.\<close>

theorem lca_symmetric_witness:
  "top_chain region_machine ''X1'' [''R1'', ''P''] \<and> top_chain region_machine ''R2'' [''P''] \<and>
   least_common_ancestor region_machine ''X1'' ''R2'' = Some (Inr (Some ''P'')) \<and>
   least_common_ancestor region_machine ''R2'' ''X1'' = Some (Inr (Some ''P''))"
proof -
  have t0: "top_chain region_machine ''P'' []"
    by (rule top_level) (simp add: region_machine_eq)
  have h2: "top_chain region_machine ''R2'' [''P'']"
    by (rule nested [OF _ t0]) (simp add: region_machine_eq)
  have t1: "top_chain region_machine ''R1'' [''P'']"
    by (rule nested [OF _ t0]) (simp add: region_machine_eq)
  have h1: "top_chain region_machine ''X1'' [''R1'', ''P'']"
    by (rule nested [OF _ t1]) (simp add: region_machine_eq)
  have v: "least_common_ancestor region_machine ''X1'' ''R2'' = Some (Inr (Some ''P''))"
    by (simp add: region_machine_eq least_common_ancestor_def ancestors_for_def
        ancestors_loop.simps)
  from lca_symmetric [OF h1 h2] v h1 h2 show ?thesis by simp
qed

text \<open>
  Claim C3. For a state whose parent chain ends at a top-level state, \<open>depth_of\<close>
  returns the length of the result of \<open>ancestors_for\<close> plus one; a state whose
  recorded parent is absent has depth 1; \<open>depth_of(None)\<close> is 0.
\<close>

theorem depth_of_ancestors:
  "(top_chain m s c \<longrightarrow>
      (\<exists>a. ancestors_for m s = Some (Inr a) \<and>
           depth_of m (Some s) = Some (Inr (int (length a) + 1)))) \<and>
   (map_of (parent m) s = Some None \<longrightarrow> depth_of m (Some s) = Some (Inr 1)) \<and>
   depth_of m None = Some (Inr 0)"
proof (intro conjI impI)
  assume "top_chain m s c"
  from top_chain_returns [OF this]
  show "\<exists>a. ancestors_for m s = Some (Inr a) \<and>
            depth_of m (Some s) = Some (Inr (int (length a) + 1))"
    by (simp add: depth_of_def)
next
  assume "map_of (parent m) s = Some None"
  then show "depth_of m (Some s) = Some (Inr 1)"
    by (simp add: depth_of_def ancestors_for_def ancestors_loop.simps)
next
  show "depth_of m None = Some (Inr 0)" by (simp add: depth_of_def)
qed

text \<open>In the second example machine \<open>R1\<close> has depth 2 and \<open>P\<close> has depth 1.\<close>

theorem depth_of_ancestors_witness:
  "top_chain region_machine ''R1'' [''P''] \<and>
   ancestors_for region_machine ''R1'' = Some (Inr [''P'']) \<and>
   depth_of region_machine (Some ''R1'') = Some (Inr 2) \<and>
   map_of (parent region_machine) ''P'' = Some None \<and>
   depth_of region_machine (Some ''P'') = Some (Inr 1) \<and>
   depth_of region_machine None = Some (Inr 0)"
proof -
  have t0: "top_chain region_machine ''P'' []"
    by (rule top_level) (simp add: region_machine_eq)
  have t1: "top_chain region_machine ''R1'' [''P'']"
    by (rule nested [OF _ t0]) (simp add: region_machine_eq)
  have a: "ancestors_for region_machine ''R1'' = Some (Inr [''P''])"
    by (simp add: region_machine_eq ancestors_for_def ancestors_loop.simps)
  have p: "map_of (parent region_machine) ''P'' = Some None"
    by (simp add: region_machine_eq)
  from depth_of_ancestors [of region_machine "''R1''" "[''P'']"]
    depth_of_ancestors [of region_machine "''P''" "[]"] t1 a p
  show ?thesis by auto
qed

text \<open>
  In the third example machine the parent chain of \<open>A\<close> consists of the top-level state
  named by the empty string. The loop of \<open>ancestors_for\<close> tests \<open>while parent:\<close>, the
  empty string is false, and the result is the empty list: the parent of \<open>A\<close> is
  missing from it.
\<close>

theorem ancestors_for_chain_counterexample:
  "top_chain empty_name_machine ''A'' [''''] \<and>
   nth_parent empty_name_machine 1 ''A'' = Some '''' \<and>
   ancestors_for empty_name_machine ''A'' = Some (Inr []) \<and>
   ancestors_for empty_name_machine ''A'' \<noteq> Some (Inr [''''])"
proof -
  have t0: "top_chain empty_name_machine '''' []"
    by (rule top_level) (simp add: empty_name_machine_eq)
  have t1: "top_chain empty_name_machine ''A'' ['''']"
    by (rule nested [OF _ t0]) (simp add: empty_name_machine_eq)
  have "nth_parent empty_name_machine 1 ''A'' = Some ''''"
    by (simp add: empty_name_machine_eq)
  moreover have "ancestors_for empty_name_machine ''A'' = Some (Inr [])"
    by (simp add: empty_name_machine_eq ancestors_for_def ancestors_loop.simps)
  ultimately show ?thesis using t1 by simp
qed

text \<open>
  Claim C4, amended. For a state \<open>s\<close> whose parent chain \<open>c\<close> ends at a top-level
  state and contains no state named by the empty string, \<open>ancestors_for(s)\<close> returns
  \<open>c\<close>: element \<open>i\<close> is the \<open>(i+1)\<close>-fold parent of \<open>s\<close>, the first element is the
  parent of \<open>s\<close>, the last one is a top-level state, and \<open>s\<close> is not a member.
\<close>

theorem ancestors_for_chain:
  assumes "top_chain m s c" and "[] \<notin> set c"
  shows "ancestors_for m s = Some (Inr c) \<and>
         (\<forall>i<length c. nth_parent m (Suc i) s = Some (c ! i)) \<and>
         (c \<noteq> [] \<longrightarrow> map_of (parent m) s = Some (Some (hd c)) \<and>
                     map_of (parent m) (last c) = Some None) \<and>
         s \<notin> set c"
proof -
  from assms(2) have tw: "takeWhile (\<lambda>n. n \<noteq> []) c = c"
    by (metis (mono_tags, lifting) takeWhile_eq_all_conv)
  with top_chain_returns [OF assms(1)] have "ancestors_for m s = Some (Inr c)" by simp
  moreover have "\<forall>i<length c. nth_parent m (Suc i) s = Some (c ! i)"
    using top_chain_nth_parent [OF assms(1)] by blast
  moreover have "c \<noteq> [] \<longrightarrow> map_of (parent m) s = Some (Some (hd c))"
    using assms(1) by (auto elim: top_chain.cases)
  moreover have "c \<noteq> [] \<longrightarrow> map_of (parent m) (last c) = Some None"
    using top_chain_last [OF assms(1)] by blast
  moreover have "s \<notin> set c" using assms by (rule top_chain_not_member)
  ultimately show ?thesis by blast
qed

text \<open>In the second example machine the ancestors of \<open>X1\<close> are \<open>R1\<close> and \<open>P\<close>.\<close>

theorem ancestors_for_chain_witness:
  "top_chain region_machine ''X1'' [''R1'', ''P''] \<and> [] \<notin> set [''R1'', ''P''] \<and>
   ancestors_for region_machine ''X1'' = Some (Inr [''R1'', ''P'']) \<and>
   nth_parent region_machine 1 ''X1'' = Some ''R1'' \<and>
   nth_parent region_machine 2 ''X1'' = Some ''P'' \<and>
   map_of (parent region_machine) ''P'' = Some None \<and>
   ''X1'' \<notin> set [''R1'', ''P'']"
proof -
  have t0: "top_chain region_machine ''P'' []"
    by (rule top_level) (simp add: region_machine_eq)
  have t1: "top_chain region_machine ''R1'' [''P'']"
    by (rule nested [OF _ t0]) (simp add: region_machine_eq)
  have h1: "top_chain region_machine ''X1'' [''R1'', ''P'']"
    by (rule nested [OF _ t1]) (simp add: region_machine_eq)
  have h2: "[] \<notin> set [''R1'', ''P'']" by simp
  have n: "nth_parent region_machine 1 ''X1'' = Some ''R1''"
    "nth_parent region_machine 2 ''X1'' = Some ''P''"
    by (simp_all add: region_machine_eq numeral_2_eq_2)
  from ancestors_for_chain [OF h1 h2] h1 n show ?thesis by simp
qed

section \<open>Properties of descendants_for and leaf_for\<close>

text \<open>
  The loop of \<open>descendants_for\<close> returns when every state in its queue has a tree
  below it, and then it has appended exactly the descendants of these states. The sum
  of the sizes of the trees in the queue decreases with every state taken from it.
\<close>

lemma descendant_unfold:
  assumes "map_of (states m) s = Some st"
  shows "descendant m s d \<longleftrightarrow>
     d \<in> set (child_names st) \<or> (\<exists>c\<in>set (child_names st). descendant m c d)"
proof
  assume "descendant m s d"
  then show "d \<in> set (child_names st) \<or> (\<exists>c\<in>set (child_names st). descendant m c d)"
    using assms by (cases rule: descendant.cases) auto
next
  assume "d \<in> set (child_names st) \<or> (\<exists>c\<in>set (child_names st). descendant m c d)"
  with assms show "descendant m s d" by (auto intro: descendant.intros)
qed

lemma descendants_loop_step:
  assumes "map_of (states m) s = Some st"
  shows "descendants_loop m acc (s # rest) =
         descendants_loop m (acc @ child_names st) (rest @ child_names st)"
  using assms by (subst descendants_loop.simps) (simp add: child_names_def)

lemma sum_size_le: "sum_list (map size us) \<le> size_list size (us :: tree list)"
  by (simp add: size_list_conv_sum_list)

lemma descendants_loop_returns:
  "\<forall>t\<in>set ts. subtree_at m t \<Longrightarrow>
     \<exists>r. descendants_loop m acc (map node_name ts) = Some (Inr (acc @ r)) \<and>
         set r = {d. \<exists>t\<in>set ts. descendant m (node_name t) d}"
proof (induction "sum_list (map size ts)" arbitrary: ts acc rule: less_induct)
  case less
  show ?case
  proof (cases ts)
    case Nil
    then show ?thesis by (simp add: descendants_loop.simps)
  next
    case (Cons t rest)
    obtain s us where t: "t = Node s us" by (cases t)
    from less.prems Cons t have "subtree_at m (Node s us)" by simp
    then obtain st where st: "map_of (states m) s = Some st"
      and cn: "child_names st = map node_name us"
      and us: "\<forall>u\<in>set us. subtree_at m u"
      by (auto split: option.splits)
    have step: "descendants_loop m acc (map node_name ts) =
        descendants_loop m (acc @ map node_name us) (map node_name (rest @ us))"
      using descendants_loop_step [OF st, of acc "map node_name rest"] Cons t cn by simp
    have "sum_list (map size (rest @ us)) < sum_list (map size ts)"
      using Cons t sum_size_le [of us] by simp
    moreover have "\<forall>u\<in>set (rest @ us). subtree_at m u" using less.prems Cons us by auto
    ultimately obtain r where
      r: "descendants_loop m (acc @ map node_name us) (map node_name (rest @ us)) =
            Some (Inr ((acc @ map node_name us) @ r))"
      and sr: "set r = {d. \<exists>u\<in>set (rest @ us). descendant m (node_name u) d}"
      using less.hyps [of "rest @ us" "acc @ map node_name us"] by blast
    have "set (map node_name us @ r) = {d. \<exists>u\<in>set ts. descendant m (node_name u) d}"
    proof -
      have "{d. descendant m s d} =
          set (map node_name us) \<union> {d. \<exists>u\<in>set us. descendant m (node_name u) d}"
        using descendant_unfold [OF st] cn by auto
      with sr Cons t show ?thesis by auto
    qed
    with step r show ?thesis by (intro exI [of _ "map node_name us @ r"]) simp
  qed
qed

lemma descendants_for_returns:
  assumes "tree_below m s"
  shows "\<exists>ds. descendants_for m s = Some (Inr ds) \<and> set ds = {d. descendant m s d}"
proof -
  from assms obtain t where t: "node_name t = s" "subtree_at m t"
    by (auto simp: tree_below_def)
  then have "\<forall>u\<in>set [t]. subtree_at m u" by simp
  from descendants_loop_returns [OF this, of "[]"] t show ?thesis
    by (simp add: descendants_for_def)
qed

lemma subtree_smaller: "u \<in> set us \<Longrightarrow> size u < size (Node s us)"
  using size_list_estimation' [of u us "size u" size] by simp

lemma descendant_smaller:
  "descendant m s d \<Longrightarrow> subtree_at m t \<Longrightarrow> node_name t = s \<Longrightarrow>
     \<exists>t'. subtree_at m t' \<and> node_name t' = d \<and> size t' < size t"
proof (induction arbitrary: t rule: descendant.induct)
  case (child m s st c)
  obtain s' us where t: "t = Node s' us" by (cases t)
  with child have "child_names st = map node_name us" "\<forall>u\<in>set us. subtree_at m u"
    by (auto split: option.splits)
  with child.hyps(2) obtain u where "u \<in> set us" "node_name u = c" "subtree_at m u" by auto
  with t subtree_smaller [of u us s'] show ?case by blast
next
  case (below m s st c d)
  obtain s' us where t: "t = Node s' us" by (cases t)
  with below.prems below.hyps(1) have "child_names st = map node_name us"
    "\<forall>u\<in>set us. subtree_at m u"
    by (auto split: option.splits)
  with below.hyps(2) obtain u where u: "u \<in> set us" "node_name u = c" "subtree_at m u" by auto
  from below.IH [OF u(3) u(2)] obtain t' where
    "subtree_at m t'" "node_name t' = d" "size t' < size u" by blast
  with t subtree_smaller [OF u(1), of s'] show ?case
    by (intro exI [of _ t']) simp
qed

lemma descendant_irrefl_aux: "subtree_at m t \<Longrightarrow> \<not> descendant m (node_name t) (node_name t)"
proof (induction "size t" arbitrary: t rule: less_induct)
  case less
  show ?case
  proof
    assume "descendant m (node_name t) (node_name t)"
    from descendant_smaller [OF this less.prems refl] obtain t' where
      t': "subtree_at m t'" "node_name t' = node_name t" "size t' < size t" by blast
    from less.hyps [OF t'(3) t'(1)] t'(2) \<open>descendant m (node_name t) (node_name t)\<close>
    show False by simp
  qed
qed

lemma descendant_irrefl: "tree_below m s \<Longrightarrow> \<not> descendant m s s"
  using descendant_irrefl_aux by (auto simp: tree_below_def)

lemma keep_scan_iff: "keep_scan ds sts \<longleftrightarrow> set ds \<inter> set sts = {}"
  by (induction ds) auto

lemma leaf_loop_returns:
  "\<forall>s\<in>set todo. tree_below m s \<Longrightarrow>
     leaf_loop m sts leaves todo =
       Some (Inr (leaves @ filter (\<lambda>s. \<not> (\<exists>d. descendant m s d \<and> d \<in> set sts)) todo))"
proof (induction todo arbitrary: leaves)
  case Nil
  then show ?case by simp
next
  case (Cons s rest)
  then have "tree_below m s" by simp
  from descendants_for_returns [OF this] obtain ds where
    ds: "descendants_for m s = Some (Inr ds)" "set ds = {d. descendant m s d}" by blast
  then have k: "keep_scan ds sts \<longleftrightarrow> \<not> (\<exists>d. descendant m s d \<and> d \<in> set sts)"
    by (auto simp: keep_scan_iff)
  from Cons.prems have "\<forall>s\<in>set rest. tree_below m s" by simp
  from Cons.IH [OF this] ds(1) k show ?case by simp
qed

lemma leaf_for_returns:
  assumes "\<forall>s\<in>set sts. tree_below m s"
  shows "leaf_for m sts =
    Some (Inr (filter (\<lambda>s. \<not> (\<exists>d. descendant m s d \<and> d \<in> set sts)) sts))"
  using leaf_loop_returns [OF assms, of sts "[]"] by (simp add: leaf_for_def)

text \<open>
  Claim C5. For a list of states each of which has a finite tree of registered states
  below it, \<open>leaf_for\<close> returns, in the order of the input, exactly the states of the
  list that have no other state of the list among their descendants; applied to its
  own result it returns that result again.
\<close>

theorem leaf_for_deepest:
  assumes "\<forall>s\<in>set sts. tree_below m s"
  shows "leaf_for m sts =
           Some (Inr (filter (\<lambda>s. \<not> (\<exists>d. descendant m s d \<and> d \<noteq> s \<and> d \<in> set sts)) sts)) \<and>
         (\<exists>leaves. leaf_for m sts = Some (Inr leaves) \<and>
                   leaf_for m leaves = Some (Inr leaves))"
proof -
  let ?P = "\<lambda>s. \<not> (\<exists>d. descendant m s d \<and> d \<in> set sts)"
  let ?L = "filter ?P sts"
  have r: "leaf_for m sts = Some (Inr ?L)" using assms by (rule leaf_for_returns)
  have "?L = filter (\<lambda>s. \<not> (\<exists>d. descendant m s d \<and> d \<noteq> s \<and> d \<in> set sts)) sts"
  proof (rule filter_cong [OF refl])
    fix s assume "s \<in> set sts"
    with assms have "tree_below m s" by simp
    then have "\<not> descendant m s s" by (rule descendant_irrefl)
    then show "?P s \<longleftrightarrow> \<not> (\<exists>d. descendant m s d \<and> d \<noteq> s \<and> d \<in> set sts)" by auto
  qed
  with r have first: "leaf_for m sts =
      Some (Inr (filter (\<lambda>s. \<not> (\<exists>d. descendant m s d \<and> d \<noteq> s \<and> d \<in> set sts)) sts))"
    by simp
  have sub: "\<forall>s\<in>set ?L. tree_below m s" using assms by simp
  have "filter (\<lambda>s. \<not> (\<exists>d. descendant m s d \<and> d \<in> set ?L)) ?L = ?L"
    by (rule filter_True) auto
  with leaf_for_returns [OF sub] have "leaf_for m ?L = Some (Inr ?L)" by simp
  with r first show ?thesis by blast
qed

text \<open>
  The second scenario of the specification: in the second example machine
  \<open>leaf_for(["P", "R1"])\<close> is \<open>["R1"]\<close>.
\<close>

theorem leaf_for_deepest_witness:
  "tree_below region_machine ''P'' \<and> tree_below region_machine ''R1'' \<and>
   leaf_for region_machine [''P'', ''R1''] = Some (Inr [''R1'']) \<and>
   leaf_for region_machine [''R1''] = Some (Inr [''R1''])"
proof -
  have r1: "subtree_at region_machine (Node ''R1'' [Node ''X1'' []])"
    by (simp add: region_machine_eq child_names_def)
  have p: "subtree_at region_machine
      (Node ''P'' [Node ''R1'' [Node ''X1'' []], Node ''R2'' [Node ''X2'' []]])"
    by (simp add: region_machine_eq child_names_def)
  have t1: "tree_below region_machine ''R1''"
    unfolding tree_below_def using r1 by (intro exI [of _ "Node ''R1'' [Node ''X1'' []]"]) simp
  have t2: "tree_below region_machine ''P''"
    unfolding tree_below_def using p
    by (intro exI [of _ "Node ''P'' [Node ''R1'' [Node ''X1'' []], Node ''R2'' [Node ''X2'' []]]"])
      simp
  from t1 t2 have h: "\<forall>s\<in>set [''P'', ''R1'']. tree_below region_machine s" by simp
  have v: "leaf_for region_machine [''P'', ''R1''] = Some (Inr [''R1''])"
    by (simp add: region_machine_eq leaf_for_def descendants_for_def descendants_loop.simps)
  from leaf_for_deepest [OF h] v t1 t2 show ?thesis by auto
qed

section \<open>Properties of registration\<close>

lemma add_transition_holds:
  "holds_transitions st \<Longrightarrow>
     \<exists>st'. add_transition st t = Some st' \<and> transitions st' = transitions st @ [t]"
  by (cases st) auto

lemma add_transition_none: "\<not> holds_transitions st \<Longrightarrow> add_transition st t = None"
  by (cases st) auto




lemma register_state_None:
  "parent_name par = None \<Longrightarrow>
     register_state m st par =
       (m\<lparr>states := AList.update (name st) st (states m),
          parent := AList.update (name st) None (parent m),
          sm_children := sm_children m @ [name st]\<rparr>, None)"
  by (simp add: register_state_def Let_def)

lemma register_state_Some:
  "parent_name par = Some q \<Longrightarrow>
     register_state m st par =
       (case map_of (AList.update (name st) st (states m)) q of
          None \<Rightarrow>
            (m\<lparr>states := AList.update (name st) st (states m),
               parent := AList.update (name st) (Some q) (parent m),
               sm_children := sm_children m @ [name st]\<rparr>, None)
        | Some ps \<Rightarrow>
            (case add_child ps (name st) of
               None \<Rightarrow>
                 (m\<lparr>states := AList.update (name st) st (states m),
                    parent := AList.update (name st) (Some q) (parent m)\<rparr>,
                  Some AttributeError)
             | Some ps' \<Rightarrow>
                 (m\<lparr>states := AList.update q ps' (AList.update (name st) st (states m)),
                    parent := AList.update (name st) (Some q) (parent m)\<rparr>, None)))"
  by (simp add: register_state_def Let_def split: option.splits)

lemma register_transition_unfold:
  "register_transition m t =
     (case map_of (states m) (from_state t) of
        None \<Rightarrow>
          (m\<lparr>sm_transitions := sm_transitions m @ [t]\<rparr>, Some (KeyError (Some (from_state t))))
      | Some st \<Rightarrow>
          (case add_transition st t of
             None \<Rightarrow> (m\<lparr>sm_transitions := sm_transitions m @ [t]\<rparr>, Some AttributeError)
           | Some st' \<Rightarrow>
               (m\<lparr>sm_transitions := sm_transitions m @ [t],
                  states := AList.update (from_state t) st' (states m)\<rparr>, None)))"
  by (simp add: register_transition_def Let_def split: option.splits)

text \<open>
  Claim C10. When \<open>transition.from_state\<close> is not a registered state,
  \<open>register_transition\<close> raises the KeyError of the lookup, and the machine it leaves
  behind has the transition at the end of its \<open>transitions\<close> list: it is not the
  machine the call started with.
\<close>

theorem register_transition_not_atomic:
  assumes "\<not> registered m (from_state t)"
  shows "snd (register_transition m t) = Some (KeyError (Some (from_state t))) \<and>
         sm_transitions (fst (register_transition m t)) = sm_transitions m @ [t] \<and>
         fst (register_transition m t) \<noteq> m"
proof -
  from assms have r: "register_transition m t =
      (m\<lparr>sm_transitions := sm_transitions m @ [t]\<rparr>, Some (KeyError (Some (from_state t))))"
    by (simp add: register_transition_unfold registered_def)
  have "sm_transitions (m\<lparr>sm_transitions := sm_transitions m @ [t]\<rparr>) \<noteq> sm_transitions m"
    by simp
  then have "m\<lparr>sm_transitions := sm_transitions m @ [t]\<rparr> \<noteq> m" by metis
  with r show ?thesis by simp
qed

text \<open>The first example machine and a transition from the unregistered name \<open>ghost\<close>.\<close>

theorem register_transition_not_atomic_witness:
  "\<not> registered example_machine ''ghost'' \<and>
   snd (register_transition example_machine from_ghost) = Some (KeyError (Some ''ghost'')) \<and>
   sm_transitions (fst (register_transition example_machine from_ghost)) =
     [go_transition, from_ghost]"
proof -
  have h: "\<not> registered example_machine (from_state from_ghost)"
    by (simp add: registered_def example_machine_eq from_ghost_def)
  from register_transition_not_atomic [OF h] h show ?thesis
    by (simp add: example_machine_eq from_ghost_def)
qed

text \<open>
  A machine with one final state \<open>F\<close> and a transition from \<open>F\<close>: the source state is
  registered, and the call raises all the same. A final state has no \<open>add_transition\<close>,
  so the exception is an AttributeError, and \<open>F\<close> has no list of outgoing transitions
  that could have received the transition.
\<close>

theorem register_transition_final_counterexample:
  "registered final_machine (from_state from_final) \<and>
   snd (register_transition final_machine from_final) = Some AttributeError \<and>
   states (fst (register_transition final_machine from_final)) =
     [(''F'', FinalState ''F'' None None)]"
  by (simp add: final_machine_eq from_final_def register_transition_def registered_def)

text \<open>
  Claim C8, amended. \<open>register_transition\<close> always appends the transition to the
  \<open>transitions\<close> list of the machine. It raises the KeyError of the lookup (the
  unknown-state failure of the specification) exactly when \<open>from_state\<close> is not
  registered. When \<open>from_state\<close> is a registered basic, compound or orthogonal state,
  the call succeeds and the transition is appended to the outgoing transitions of that
  state. When \<open>from_state\<close> is a registered history or final state, the call raises
  AttributeError and leaves the states as they were.
\<close>

theorem register_transition_cases:
  "sm_transitions (fst (register_transition m t)) = sm_transitions m @ [t] \<and>
   ((\<exists>k. snd (register_transition m t) = Some (KeyError k)) \<longleftrightarrow>
      \<not> registered m (from_state t)) \<and>
   (\<forall>st. map_of (states m) (from_state t) = Some st \<and> holds_transitions st \<longrightarrow>
      snd (register_transition m t) = None \<and>
      (\<exists>st'. map_of (states (fst (register_transition m t))) (from_state t) = Some st' \<and>
             transitions st' = transitions st @ [t])) \<and>
   (\<forall>st. map_of (states m) (from_state t) = Some st \<and> \<not> holds_transitions st \<longrightarrow>
      snd (register_transition m t) = Some AttributeError \<and>
      states (fst (register_transition m t)) = states m)"
proof (intro conjI allI impI)
  show "sm_transitions (fst (register_transition m t)) = sm_transitions m @ [t]"
    by (simp add: register_transition_unfold split: option.splits)
next
  show "(\<exists>k. snd (register_transition m t) = Some (KeyError k)) \<longleftrightarrow>
          \<not> registered m (from_state t)"
    by (auto simp: register_transition_unfold registered_def split: option.splits)
next
  fix st assume h: "map_of (states m) (from_state t) = Some st \<and> holds_transitions st"
  then obtain st' where a: "add_transition st t = Some st'"
    and tr: "transitions st' = transitions st @ [t]"
    using add_transition_holds by blast
  from h a show "snd (register_transition m t) = None"
    by (simp add: register_transition_unfold)
  from h a tr
  show "\<exists>st'. map_of (states (fst (register_transition m t))) (from_state t) = Some st' \<and>
             transitions st' = transitions st @ [t]"
    by (simp add: register_transition_unfold update_conv')
next
  fix st assume h: "map_of (states m) (from_state t) = Some st \<and> \<not> holds_transitions st"
  then have a: "add_transition st t = None" by (simp add: add_transition_none)
  from h a show "snd (register_transition m t) = Some AttributeError"
    by (simp add: register_transition_unfold)
  from h a show "states (fst (register_transition m t)) = states m"
    by (simp add: register_transition_unfold)
qed

text \<open>
  The three cases: a second registration of the transition of the first example machine,
  the transition from the final state, and the transition from \<open>ghost\<close>.
\<close>

theorem register_transition_cases_witness:
  "map_of (states example_machine) ''A'' = Some (BasicState ''A'' [go_transition] None None) \<and>
   snd (register_transition example_machine go_transition) = None \<and>
   map_of (states (fst (register_transition example_machine go_transition))) ''A'' =
     Some (BasicState ''A'' [go_transition, go_transition] None None) \<and>
   map_of (states final_machine) ''F'' = Some (FinalState ''F'' None None) \<and>
   snd (register_transition final_machine from_final) = Some AttributeError \<and>
   states (fst (register_transition final_machine from_final)) = states final_machine \<and>
   snd (register_transition example_machine from_ghost) = Some (KeyError (Some ''ghost''))"
proof -
  have a: "map_of (states example_machine) (from_state go_transition) =
             Some (BasicState ''A'' [go_transition] None None) \<and>
           holds_transitions (BasicState ''A'' [go_transition] None None)"
    by (simp add: example_machine_eq go_transition_def)
  have f: "map_of (states final_machine) (from_state from_final) =
             Some (FinalState ''F'' None None) \<and>
           \<not> holds_transitions (FinalState ''F'' None None)"
    by (simp add: final_machine_eq from_final_def)
  have g: "\<not> registered example_machine (from_state from_ghost)"
    by (simp add: registered_def example_machine_eq from_ghost_def)
  have v: "map_of (states (fst (register_transition example_machine go_transition))) ''A'' =
             Some (BasicState ''A'' [go_transition, go_transition] None None)"
    "snd (register_transition example_machine from_ghost) = Some (KeyError (Some ''ghost''))"
    by (simp_all add: example_machine_eq register_transition_def go_transition_def from_ghost_def)
  from register_transition_cases [of example_machine go_transition]
    register_transition_cases [of final_machine from_final]
    register_transition_cases [of example_machine from_ghost] a f g v
  show ?thesis by (auto simp: go_transition_def from_final_def)
qed

text \<open>
  In the first example machine \<open>A\<close> is registered. Registering a new basic state of that
  name succeeds: the new object replaces the old one, which held a transition, the name
  is appended to the top-level children, and the machine has changed.
\<close>

theorem register_state_duplicate_counterexample:
  "registered example_machine ''A'' \<and>
   snd (register_state example_machine (BasicState ''A'' [] None None) ParentNone) = None \<and>
   map_of (states (fst (register_state example_machine (BasicState ''A'' [] None None) ParentNone)))
     ''A'' = Some (BasicState ''A'' [] None None) \<and>
   sm_children (fst (register_state example_machine (BasicState ''A'' [] None None) ParentNone)) =
     [''root'', ''A''] \<and>
   fst (register_state example_machine (BasicState ''A'' [] None None) ParentNone) \<noteq>
     example_machine"
proof -
  let ?r = "register_state example_machine (BasicState ''A'' [] None None) ParentNone"
  have c: "sm_children (fst ?r) = [''root'', ''A'']"
    by (simp add: example_machine_eq register_state_def)
  have "sm_children example_machine = [''root'']" by (simp add: example_machine_eq)
  with c have "fst ?r \<noteq> example_machine" by auto
  moreover have "registered example_machine ''A''" "snd ?r = None"
    "map_of (states (fst ?r)) ''A'' = Some (BasicState ''A'' [] None None)"
    by (simp_all add: example_machine_eq register_state_def registered_def)
  ultimately show ?thesis using c by simp
qed

text \<open>
  Claim C6, amended. \<open>register_state\<close> has no check for a name that is already
  registered. The call writes \<open>parent[state.name]\<close>, replaces the entry of \<open>states\<close>
  by the new state (unless the state is given as its own parent, when \<open>add_child\<close>
  acts on the new entry), and raises nothing but the AttributeError of \<open>add_child\<close>;
  with an absent parent it succeeds and appends the name to the top-level children
  once more.
\<close>

theorem register_state_duplicate:
  assumes "registered m (name st)"
  shows "(snd (register_state m st par) = None \<or>
          snd (register_state m st par) = Some AttributeError) \<and>
         map_of (parent (fst (register_state m st par))) (name st) = Some (parent_name par) \<and>
         (parent_name par \<noteq> Some (name st) \<longrightarrow>
            map_of (states (fst (register_state m st par))) (name st) = Some st) \<and>
         (parent_name par = None \<longrightarrow>
            snd (register_state m st par) = None \<and>
            sm_children (fst (register_state m st par)) = sm_children m @ [name st])"
proof (cases "parent_name par")
  case None
  then show ?thesis by (simp add: register_state_None update_conv')
next
  case (Some q)
  then show ?thesis
    by (auto simp: register_state_Some update_conv' split: option.splits)
qed

text \<open>The second registration of \<open>A\<close> in the first example machine.\<close>

theorem register_state_duplicate_witness:
  "registered example_machine (name (BasicState ''A'' [] None None)) \<and>
   snd (register_state example_machine (BasicState ''A'' [] None None) ParentNone) = None \<and>
   map_of (parent (fst (register_state example_machine (BasicState ''A'' [] None None) ParentNone)))
     ''A'' = Some None \<and>
   map_of (states (fst (register_state example_machine (BasicState ''A'' [] None None) ParentNone)))
     ''A'' = Some (BasicState ''A'' [] None None) \<and>
   sm_children (fst (register_state example_machine (BasicState ''A'' [] None None) ParentNone)) =
     [''root'', ''A'']"
proof -
  have h: "registered example_machine (name (BasicState ''A'' [] None None))"
    by (simp add: registered_def example_machine_eq)
  have c: "sm_children example_machine = [''root'']" by (simp add: example_machine_eq)
  from register_state_duplicate [OF h, of ParentNone] h c show ?thesis by simp
qed




section \<open>Properties of validation\<close>

text \<open>
  Claim C9: validation raises the initial-state error when a compound state that has a
  parent has an initial state that is not one of its own children. The code departs
  from this at the following input. In the first machine the compound state \<open>C\<close> has the parent \<open>root\<close> and the only child \<open>D\<close>, and its initial
  state \<open>ghost\<close> is not registered: \<open>valid\<close> raises the KeyError of the subscript
  \<open>self.parent[state.initial]\<close>, not the ValueError of the initial-state check. In the
  second machine the initial state of \<open>C\<close> is registered as a child of \<open>root\<close>, and
  \<open>valid\<close> raises that ValueError.
\<close>

theorem valid_unregistered_initial:
  "map_of (states ghost_initial_machine) ''C'' =
     Some (CompoundState ''C'' [] None None [''D''] ''ghost'') \<and>
   map_of (parent ghost_initial_machine) ''C'' = Some (Some ''root'') \<and>
   ''ghost'' \<notin> set [''D''] \<and>
   \<not> registered ghost_initial_machine ''ghost'' \<and>
   valid ghost_initial_machine = Inl (KeyError (Some ''ghost'')) \<and>
   map_of (states nested_machine) ''C'' =
     Some (CompoundState ''C'' [] None None [''D''] ''A'') \<and>
   valid nested_machine = Inl (ValueError (InitialNotChild ''C''))"
  by (simp add: ghost_initial_machine_eq nested_machine_eq valid_def registered_def
      check_state_def check_history_def check_composite_def check_initial_def)

end
